theory Spec2Isabelle
  imports Main
begin

section \<open>The object pool of \<^verbatim>\<open>ObjectPool.cpp\<close>\<close>

text \<open>
  The pool hands out pointers to heap objects. A pointer is modelled by the address it
  holds; \<^verbatim>\<open>new Object()\<close> returns the next unused address, which is what the allocator
  guarantees as long as nothing is deleted (the pool deletes objects in its destructor
  only).
\<close>

type_synonym obj = nat

text \<open>
  The calls the pool makes on its collaborators, in the order it makes them. The three
  methods of \<^verbatim>\<open>Object\<close> print one line each; the trace records which object each call
  was made on, together with allocation, deletion, the notifications of
  \<^verbatim>\<open>releaseMonitor\<close> and the join of \<^verbatim>\<open>updateThread\<close>.
\<close>

datatype call =
    New obj
  | Delete obj
  | Activate obj
  | Deactivate obj
  | Update obj
  | Notify_one
  | Notify_all
  | Join

datatype thread = Running | Joined

text \<open>
  The fields of \<^verbatim>\<open>class ObjectPool\<close>. \<^verbatim>\<open>objects\<close> is a \<^verbatim>\<open>std::queue\<close>: its front is the
  head of the list and \<^verbatim>\<open>push\<close> appends. \<^verbatim>\<open>activeObjects\<close> is a \<^verbatim>\<open>std::list\<close>.
  The mutex is part of the interleaving model further down; \<open>heap\<close> (the next address
  \<^verbatim>\<open>new\<close> returns) and \<open>calls\<close> (the trace) are bookkeeping.
\<close>

record pool =
  expandable :: bool
  objects :: "obj list"
  activeObjects :: "obj list"
  updateThread :: thread
  stopUpdateFlag :: bool
  heap :: nat
  calls :: "call list"

text \<open>
  How a call of a member function ends: it returns a value and leaves a pool state, an
  exception thrown by a method of the object leaves it (with the pool state at that
  moment, after the lock guards are unwound), it never returns, or it runs into
  undefined behaviour (\<^verbatim>\<open>front\<close> of an empty queue, a second \<^verbatim>\<open>delete\<close>).
\<close>

datatype 'a outcome =
    Returned 'a pool
  | Raised call pool
  | Blocked
  | Undefined

text \<open>
  The class of the pooled objects, reduced to what the pool can observe of it: which of
  its method calls throw. The \<^verbatim>\<open>Object\<close> of the source only prints, so none does; the
  other classes are there for the behaviour of the pool when a method does throw.
\<close>

type_synonym object_class = "call \<Rightarrow> bool"

definition Object :: object_class where
  "Object = (\<lambda>_. False)"

definition record_call :: "call \<Rightarrow> pool \<Rightarrow> pool" where
  "record_call c p = p\<lparr>calls := calls p @ [c]\<rparr>"

text \<open>\<^verbatim>\<open>objects.push(new Object())\<close>\<close>

definition push_new :: "pool \<Rightarrow> pool" where
  "push_new p =
     (record_call (New (heap p)) p)\<lparr>objects := objects p @ [heap p], heap := Suc (heap p)\<rparr>"

subsection \<open>Construction\<close>

text \<open>
  \<^verbatim>\<open>for (int i = 0; i < numObjects; ++i) objects.push(new Object());\<close>
\<close>

function fill :: "int \<Rightarrow> int \<Rightarrow> pool \<Rightarrow> pool" where
  "fill i numObjects p = (if i < numObjects then fill (i + 1) numObjects (push_new p) else p)"
  by pat_completeness auto
termination
  by (relation "measure (\<lambda>(i, n, p). nat (n - i))") auto

definition empty_pool :: "bool \<Rightarrow> pool" where
  "empty_pool e =
     \<lparr>expandable = e, objects = [], activeObjects = [], updateThread = Running,
      stopUpdateFlag = False, heap = 0, calls = []\<rparr>"

text \<open>
  \<^verbatim>\<open>ObjectPool(int numObjects)\<close> and \<^verbatim>\<open>ObjectPool(int numObjects, bool expandable)\<close>:
  the member initialisers, the loop, and the start of the update thread (the field
  \<open>updateThread\<close> is \<open>Running\<close> from the initial state on: the thread is started last
  and touches nothing before its first pass).
\<close>

definition ObjectPool_1 :: "int \<Rightarrow> pool" where
  "ObjectPool_1 numObjects = fill 0 numObjects (empty_pool False)"

definition ObjectPool_2 :: "int \<Rightarrow> bool \<Rightarrow> pool" where
  "ObjectPool_2 numObjects e = fill 0 numObjects (empty_pool e)"

subsection \<open>\<^verbatim>\<open>requestObject\<close> and \<^verbatim>\<open>releaseObject\<close>, one call at a time\<close>

text \<open>
  \<^verbatim>\<open>while (objects.empty()) releaseMonitor.wait(lock);\<close> with no other thread running:
  \<^verbatim>\<open>wait\<close> comes back with the pool as it was, so the loop ends only if the queue is not
  empty to begin with.
\<close>

partial_function (option) await_object :: "pool \<Rightarrow> pool option" where
  "await_object p = (if objects p = [] then await_object p else Some p)"

definition requestObject :: "object_class \<Rightarrow> pool \<Rightarrow> obj outcome" where
  "requestObject c p =
     (case (if \<not> expandable p then await_object p
            else Some (if objects p = [] then push_new p else p)) of
        None \<Rightarrow> Blocked
      | Some p1 \<Rightarrow>
          (case objects p1 of
             [] \<Rightarrow> Undefined
           | ob # rest \<Rightarrow>
               (let p2 = record_call (Activate ob) (p1\<lparr>objects := rest\<rparr>)
                in if c (Activate ob) then Raised (Activate ob) p2
                   else Returned ob (p2\<lparr>activeObjects := activeObjects p2 @ [ob]\<rparr>))))"

definition releaseObject :: "object_class \<Rightarrow> obj \<Rightarrow> pool \<Rightarrow> unit outcome" where
  "releaseObject c ob p =
     (let p1 = record_call (Deactivate ob) p
      in if c (Deactivate ob) then Raised (Deactivate ob) p1
         else Returned ()
                (record_call Notify_one
                   (p1\<lparr>objects := objects p1 @ [ob],
                       activeObjects := removeAll ob (activeObjects p1)\<rparr>)))"

subsection \<open>The update loop\<close>

text \<open>
  One pass, \<^verbatim>\<open>for (Object* obj : activeObjects) obj->update();\<close>, over the list as it
  is when the pass starts (the pass holds the mutex).
\<close>

fun update_all :: "object_class \<Rightarrow> obj list \<Rightarrow> pool \<Rightarrow> unit outcome" where
  "update_all c [] p = Returned () p"
| "update_all c (ob # rest) p =
     (let p1 = record_call (Update ob) p
      in if c (Update ob) then Raised (Update ob) p1 else update_all c rest p1)"

text \<open>
  \<^verbatim>\<open>while (!stopUpdateFlag) { lock; pass }\<close>, run with no other thread in between. An
  exception that leaves the thread function ends the program; it is kept as \<open>Raised\<close>.
\<close>

partial_function (option) updateLoop :: "object_class \<Rightarrow> pool \<Rightarrow> unit outcome option" where
  "updateLoop c p =
     (if stopUpdateFlag p then Some (Returned () p)
      else (case update_all c (activeObjects p) p of
              Returned u p1 \<Rightarrow> updateLoop c p1
            | Raised e p1 \<Rightarrow> Some (Raised e p1)
            | Blocked \<Rightarrow> Some Blocked
            | Undefined \<Rightarrow> Some Undefined))"

subsection \<open>The destructor\<close>

text \<open>
  Lines 65 to 67: set the flag, \<^verbatim>\<open>releaseMonitor.notify_all()\<close>, \<^verbatim>\<open>updateThread.join()\<close>.
  The join returns when the update loop has returned.
\<close>

definition stop_update_thread :: "object_class \<Rightarrow> pool \<Rightarrow> unit outcome" where
  "stop_update_thread c p =
     (case updateLoop c (record_call Notify_all (p\<lparr>stopUpdateFlag := True\<rparr>)) of
        None \<Rightarrow> Blocked
      | Some (Returned u p1) \<Rightarrow> Returned () (record_call Join (p1\<lparr>updateThread := Joined\<rparr>))
      | Some (Raised e p1) \<Rightarrow> Raised e p1
      | Some Blocked \<Rightarrow> Blocked
      | Some Undefined \<Rightarrow> Undefined)"

text \<open>
  \<^verbatim>\<open>while (!activeObjects.empty()) releaseObject(activeObjects.front());\<close>
\<close>

function drain :: "object_class \<Rightarrow> pool \<Rightarrow> unit outcome" where
  "drain c p =
     (if activeObjects p = [] then Returned () p
      else (case releaseObject c (hd (activeObjects p)) p of
              Returned u p1 \<Rightarrow> drain c p1
            | Raised e p1 \<Rightarrow> Raised e p1
            | Blocked \<Rightarrow> Blocked
            | Undefined \<Rightarrow> Undefined))"
  by pat_completeness auto
termination
  by (relation "measure (\<lambda>(c, p). length (activeObjects p))")
     (auto simp: releaseObject_def record_call_def Let_def length_removeAll_less
           split: if_splits)

text \<open>
  \<^verbatim>\<open>while (!objects.empty()) { delete objects.front(); objects.pop(); }\<close>
  Deleting a pointer a second time is undefined behaviour.
\<close>

function delete_all :: "pool \<Rightarrow> unit outcome" where
  "delete_all p =
     (if objects p = [] then Returned () p
      else if Delete (hd (objects p)) \<in> set (calls p) then Undefined
      else delete_all (record_call (Delete (hd (objects p))) (p\<lparr>objects := tl (objects p)\<rparr>)))"
  by pat_completeness auto
termination
  by (relation "measure (\<lambda>p. length (objects p))") (auto simp: record_call_def)

definition ObjectPool_dtor :: "object_class \<Rightarrow> pool \<Rightarrow> unit outcome" where
  "ObjectPool_dtor c p =
     (case stop_update_thread c p of
        Returned u p1 \<Rightarrow>
          (case drain c p1 of
             Returned v p2 \<Rightarrow> delete_all p2
           | Raised e p2 \<Rightarrow> Raised e p2
           | Blocked \<Rightarrow> Blocked
           | Undefined \<Rightarrow> Undefined)
      | Raised e p1 \<Rightarrow> Raised e p1
      | Blocked \<Rightarrow> Blocked
      | Undefined \<Rightarrow> Undefined)"

subsection \<open>Sequences of calls\<close>

text \<open>
  The calls of all threads in the order in which they take effect, each one run from
  start to end before the next: a request, a release of some pointer, or one pass of the
  update loop. The objects are of the class \<open>Object\<close> of the source. A call that does
  not return in the state it meets (a request on an empty pool that cannot grow) has no
  place in such a sequence at that point; \<open>run\<close> is \<open>None\<close> then.
\<close>

datatype op = Acquire | Release obj | Pass

datatype event = Acquired obj | Released obj | Updated

definition pool_step :: "op \<Rightarrow> pool \<Rightarrow> (event \<times> pool) option" where
  "pool_step a p =
     (case a of
        Acquire \<Rightarrow>
          (case requestObject Object p of Returned ob p1 \<Rightarrow> Some (Acquired ob, p1) | _ \<Rightarrow> None)
      | Release ob \<Rightarrow>
          (case releaseObject Object ob p of Returned u p1 \<Rightarrow> Some (Released ob, p1) | _ \<Rightarrow> None)
      | Pass \<Rightarrow>
          (if stopUpdateFlag p then None
           else (case update_all Object (activeObjects p) p of
                   Returned u p1 \<Rightarrow> Some (Updated, p1)
                 | _ \<Rightarrow> None)))"

fun run :: "op list \<Rightarrow> pool \<Rightarrow> (event list \<times> pool) option" where
  "run [] p = Some ([], p)"
| "run (a # ops) p =
     (case pool_step a p of
        None \<Rightarrow> None
      | Some (e, p1) \<Rightarrow>
          (case run ops p1 of None \<Rightarrow> None | Some (es, p2) \<Rightarrow> Some (e # es, p2)))"

text \<open>
  The callers' side of the contract of \<^verbatim>\<open>releaseObject\<close>: the pointer passed is in
  \<^verbatim>\<open>activeObjects\<close> when the call is made.
\<close>

fun releases_active :: "op list \<Rightarrow> pool \<Rightarrow> bool" where
  "releases_active [] p = True"
| "releases_active (a # ops) p =
     ((case a of Release ob \<Rightarrow> ob \<in> set (activeObjects p) | _ \<Rightarrow> True) \<and>
      (case pool_step a p of None \<Rightarrow> True | Some (e, p1) \<Rightarrow> releases_active ops p1))"

section \<open>Threads, the mutex and the condition variable\<close>

text \<open>
  The same member functions statement by statement, for several threads that share the
  pool. A thread is at a program point of the function it is running; a step runs the
  statement at that point. \<open>mutex\<close> is the thread that owns the mutex, if any. A thread
  that needs the mutex can step only when the mutex is free. A thread suspended in
  \<^verbatim>\<open>releaseMonitor.wait\<close> may wake at any time (the condition variable allows spurious
  wake-ups) and then needs the mutex to go on; \<open>waiting\<close> counts the threads suspended
  there. A statement is one step; so is a whole pass of the update loop, which runs
  under the mutex. The methods of the objects are those of the class \<open>Object\<close> of the
  source, which do not throw.
\<close>

type_synonym tid = nat

text \<open>
  \<^verbatim>\<open>releaseObject\<close> is called by the users of the pool and, at line 71, by the
  destructor; it returns to its caller.
\<close>

datatype caller = User | Destructor

datatype pc =
    Req_enter
  | Req_test
  | Req_wait
  | Req_grow
  | Req_front
  | Req_pop obj
  | Req_activate obj
  | Req_push_back obj
  | Rel_enter caller obj
  | Rel_deactivate caller obj
  | Rel_push caller obj
  | Rel_remove caller obj
  | Rel_notify caller obj
  | Upd_test
  | Upd_lock
  | Upd_pass
  | Dtor_stop
  | Dtor_notify
  | Dtor_join
  | Dtor_active
  | Dtor_front
  | Dtor_objects
  | Dtor_delete
  | Dtor_pop
  | Dtor_members
  | Done "obj option"
  | Crashed

record system =
  state :: pool
  mutex :: "tid option"
  waiting :: nat
  pcs :: "tid \<Rightarrow> pc"

text \<open>The thread started by the constructors, \<^verbatim>\<open>updateThread\<close>.\<close>

definition updater :: tid where
  "updater = 0"

definition goto :: "tid \<Rightarrow> pc \<Rightarrow> system \<Rightarrow> system" where
  "goto t l s = s\<lparr>pcs := (pcs s)(t := l)\<rparr>"

definition lock :: "tid \<Rightarrow> pc \<Rightarrow> system \<Rightarrow> system option" where
  "lock t l s = (if mutex s = None then Some (goto t l (s\<lparr>mutex := Some t\<rparr>)) else None)"

definition unlock :: "system \<Rightarrow> system" where
  "unlock s = s\<lparr>mutex := None\<rparr>"

definition on_pool :: "(pool \<Rightarrow> pool) \<Rightarrow> system \<Rightarrow> system" where
  "on_pool f s = s\<lparr>state := f (state s)\<rparr>"

text \<open>Where \<^verbatim>\<open>releaseObject\<close> returns to.\<close>

fun return_to :: "caller \<Rightarrow> pc" where
  "return_to User = Done None"
| "return_to Destructor = Dtor_active"

text \<open>
  One step of thread \<open>t\<close>; \<open>None\<close> when it cannot step (it waits for the mutex or for
  the join, or it has finished). The comments give the lines of \<^verbatim>\<open>ObjectPool.cpp\<close>.
  The \<^verbatim>\<open>unique_lock\<close> of \<^verbatim>\<open>requestObject\<close> is declared inside the block of
  \<^verbatim>\<open>if (!expandable)\<close> and is released where that block ends, at line 88. The loops
  of the destructor take no lock of their own; the \<^verbatim>\<open>releaseObject\<close> of line 71
  locks, notifies and unlocks as any other. After line 76 the members are destroyed,
  which is undefined while a thread is suspended on \<^verbatim>\<open>releaseMonitor\<close>.
\<close>

definition step :: "tid \<Rightarrow> system \<Rightarrow> system option" where
  "step t s =
     (case pcs s t of
        \<comment> \<open>82, 83\<close>
        Req_enter \<Rightarrow>
          if \<not> expandable (state s) then lock t Req_test s else Some (goto t Req_grow s)
        \<comment> \<open>84, and 86 or 88\<close>
      | Req_test \<Rightarrow>
          if objects (state s) = []
          then Some (goto t Req_wait (unlock (s\<lparr>waiting := Suc (waiting s)\<rparr>)))
          else Some (goto t Req_front (unlock s))
        \<comment> \<open>86, waking up\<close>
      | Req_wait \<Rightarrow> lock t Req_test (s\<lparr>waiting := waiting s - 1\<rparr>)
        \<comment> \<open>90 to 92\<close>
      | Req_grow \<Rightarrow>
          Some (goto t Req_front (on_pool (\<lambda>p. if objects p = [] then push_new p else p) s))
        \<comment> \<open>94\<close>
      | Req_front \<Rightarrow>
          (case objects (state s) of
             [] \<Rightarrow> Some (goto t Crashed s)
           | ob # rest \<Rightarrow> Some (goto t (Req_pop ob) s))
        \<comment> \<open>95\<close>
      | Req_pop ob \<Rightarrow>
          (case objects (state s) of
             [] \<Rightarrow> Some (goto t Crashed s)
           | x # rest \<Rightarrow> Some (goto t (Req_activate ob) (on_pool (\<lambda>p. p\<lparr>objects := rest\<rparr>) s)))
        \<comment> \<open>96\<close>
      | Req_activate ob \<Rightarrow>
          Some (goto t (Req_push_back ob) (on_pool (record_call (Activate ob)) s))
        \<comment> \<open>97, 98\<close>
      | Req_push_back ob \<Rightarrow>
          Some (goto t (Done (Some ob))
                  (on_pool (\<lambda>p. p\<lparr>activeObjects := activeObjects p @ [ob]\<rparr>) s))
        \<comment> \<open>103\<close>
      | Rel_enter c ob \<Rightarrow> lock t (Rel_deactivate c ob) s
        \<comment> \<open>104\<close>
      | Rel_deactivate c ob \<Rightarrow>
          Some (goto t (Rel_push c ob) (on_pool (record_call (Deactivate ob)) s))
        \<comment> \<open>105\<close>
      | Rel_push c ob \<Rightarrow>
          Some (goto t (Rel_remove c ob) (on_pool (\<lambda>p. p\<lparr>objects := objects p @ [ob]\<rparr>) s))
        \<comment> \<open>106\<close>
      | Rel_remove c ob \<Rightarrow>
          Some (goto t (Rel_notify c ob)
                  (on_pool (\<lambda>p. p\<lparr>activeObjects := removeAll ob (activeObjects p)\<rparr>) s))
        \<comment> \<open>107, 108\<close>
      | Rel_notify c ob \<Rightarrow>
          Some (goto t (return_to c) (unlock (on_pool (record_call Notify_one) s)))
        \<comment> \<open>37\<close>
      | Upd_test \<Rightarrow>
          if stopUpdateFlag (state s) then Some (goto t (Done None) s)
          else Some (goto t Upd_lock s)
        \<comment> \<open>38\<close>
      | Upd_lock \<Rightarrow> lock t Upd_pass s
        \<comment> \<open>39 to 42\<close>
      | Upd_pass \<Rightarrow>
          (case update_all Object (activeObjects (state s)) (state s) of
             Returned u p1 \<Rightarrow> Some (goto t Upd_test (unlock (s\<lparr>state := p1\<rparr>)))
           | _ \<Rightarrow> Some (goto t Crashed s))
        \<comment> \<open>65\<close>
      | Dtor_stop \<Rightarrow> Some (goto t Dtor_notify (on_pool (\<lambda>p. p\<lparr>stopUpdateFlag := True\<rparr>) s))
        \<comment> \<open>66\<close>
      | Dtor_notify \<Rightarrow> Some (goto t Dtor_join (on_pool (record_call Notify_all) s))
        \<comment> \<open>67\<close>
      | Dtor_join \<Rightarrow>
          if pcs s updater = Done None
          then Some (goto t Dtor_active
                       (on_pool (\<lambda>p. record_call Join (p\<lparr>updateThread := Joined\<rparr>)) s))
          else None
        \<comment> \<open>70\<close>
      | Dtor_active \<Rightarrow>
          if activeObjects (state s) = [] then Some (goto t Dtor_objects s)
          else Some (goto t Dtor_front s)
        \<comment> \<open>71, the argument and the call\<close>
      | Dtor_front \<Rightarrow>
          (case activeObjects (state s) of
             [] \<Rightarrow> Some (goto t Crashed s)
           | ob # rest \<Rightarrow> Some (goto t (Rel_enter Destructor ob) s))
        \<comment> \<open>73\<close>
      | Dtor_objects \<Rightarrow>
          if objects (state s) = [] then Some (goto t Dtor_members s)
          else Some (goto t Dtor_delete s)
        \<comment> \<open>74\<close>
      | Dtor_delete \<Rightarrow>
          (case objects (state s) of
             [] \<Rightarrow> Some (goto t Crashed s)
           | ob # rest \<Rightarrow>
               if Delete ob \<in> set (calls (state s)) then Some (goto t Crashed s)
               else Some (goto t Dtor_pop (on_pool (record_call (Delete ob)) s)))
        \<comment> \<open>75\<close>
      | Dtor_pop \<Rightarrow>
          (case objects (state s) of
             [] \<Rightarrow> Some (goto t Crashed s)
           | ob # rest \<Rightarrow> Some (goto t Dtor_objects (on_pool (\<lambda>p. p\<lparr>objects := rest\<rparr>) s)))
        \<comment> \<open>77\<close>
      | Dtor_members \<Rightarrow>
          if waiting s = 0 then Some (goto t (Done None) s) else Some (goto t Crashed s)
      | Done r \<Rightarrow> None
      | Crashed \<Rightarrow> None)"

text \<open>A schedule names the thread that takes each step.\<close>

fun exec :: "tid list \<Rightarrow> system \<Rightarrow> system option" where
  "exec [] s = Some s"
| "exec (t # ts) s = (case step t s of None \<Rightarrow> None | Some s1 \<Rightarrow> exec ts s1)"

text \<open>The pool right after construction, with the update thread and the callers' threads.\<close>

definition start :: "pool \<Rightarrow> (tid \<Rightarrow> pc) \<Rightarrow> system" where
  "start p callers =
     \<lparr>state = p, mutex = None, waiting = 0, pcs = callers(updater := Upd_test)\<rparr>"

text \<open>Threads that run nothing, and what is observed of a system: the pool, the owner
  of the mutex and the program points of the listed threads.\<close>

definition idle :: "tid \<Rightarrow> pc" where
  "idle = (\<lambda>t. Done None)"

definition view :: "tid list \<Rightarrow> system \<Rightarrow> pool \<times> tid option \<times> pc list" where
  "view ts s = (state s, mutex s, map (pcs s) ts)"

text \<open>
  The program points of \<^verbatim>\<open>updateLoop\<close>, with the number of steps the thread still takes
  once \<^verbatim>\<open>stopUpdateFlag\<close> is set.
\<close>

fun in_updateLoop :: "pc \<Rightarrow> bool" where
  "in_updateLoop Upd_test = True"
| "in_updateLoop Upd_lock = True"
| "in_updateLoop Upd_pass = True"
| "in_updateLoop l = False"

fun steps_to_exit :: "pc \<Rightarrow> nat" where
  "steps_to_exit Upd_lock = 3"
| "steps_to_exit Upd_pass = 2"
| "steps_to_exit Upd_test = 1"
| "steps_to_exit l = 0"

text \<open>
  The program points at which a thread owns the mutex: between the constructor of a
  lock and the end of its scope, but not while suspended in \<^verbatim>\<open>wait\<close>.
\<close>

fun holds_mutex :: "pc \<Rightarrow> bool" where
  "holds_mutex Req_test = True"
| "holds_mutex (Rel_deactivate c ob) = True"
| "holds_mutex (Rel_push c ob) = True"
| "holds_mutex (Rel_remove c ob) = True"
| "holds_mutex (Rel_notify c ob) = True"
| "holds_mutex Upd_pass = True"
| "holds_mutex l = False"

text \<open>
  The program points of \<^verbatim>\<open>requestObject\<close> after the block of the \<^verbatim>\<open>unique_lock\<close> and in
  the \<^verbatim>\<open>else\<close> branch: lines 90 to 97.
\<close>

fun outside_mutex :: "pc \<Rightarrow> bool" where
  "outside_mutex Req_grow = True"
| "outside_mutex Req_front = True"
| "outside_mutex (Req_pop ob) = True"
| "outside_mutex (Req_activate ob) = True"
| "outside_mutex (Req_push_back ob) = True"
| "outside_mutex l = False"

text \<open>The threads inside a critical section are exactly the owner of the mutex.\<close>

definition mutex_ok :: "system \<Rightarrow> bool" where
  "mutex_ok s \<longleftrightarrow> (\<forall>t. holds_mutex (pcs s t) = (mutex s = Some t))"

text \<open>
  A pool that has no object and cannot grow, with the update thread 0, thread 1 in the
  waiting part of \<^verbatim>\<open>requestObject\<close> (lines 82 to 87), thread 2 in the destructor or
  past it, and no other thread.
\<close>

fun request_waits :: "pc \<Rightarrow> bool" where
  "request_waits Req_enter = True"
| "request_waits Req_test = True"
| "request_waits Req_wait = True"
| "request_waits l = False"

fun in_dtor :: "pc \<Rightarrow> bool" where
  "in_dtor Dtor_stop = True"
| "in_dtor Dtor_notify = True"
| "in_dtor Dtor_join = True"
| "in_dtor Dtor_active = True"
| "in_dtor Dtor_objects = True"
| "in_dtor Dtor_members = True"
| "in_dtor (Done r) = True"
| "in_dtor Crashed = True"
| "in_dtor l = False"

definition no_object_ever :: "system \<Rightarrow> bool" where
  "no_object_ever s \<longleftrightarrow>
     objects (state s) = [] \<and> activeObjects (state s) = [] \<and> \<not> expandable (state s) \<and>
     request_waits (pcs s 1) \<and>
     (in_updateLoop (pcs s 0) \<or> pcs s 0 = Done None) \<and>
     in_dtor (pcs s 2) \<and>
     (\<forall>t. 2 < t \<longrightarrow> pcs s t = Done None)"

text \<open>
  The program points of \<^verbatim>\<open>requestObject\<close> that a call on an expandable pool goes
  through (the \<^verbatim>\<open>else\<close> branch and lines 94 to 98).
\<close>

fun growable_path :: "pc \<Rightarrow> bool" where
  "growable_path Req_enter = True"
| "growable_path Req_grow = True"
| "growable_path Req_front = True"
| "growable_path (Req_pop ob) = True"
| "growable_path (Req_activate ob) = True"
| "growable_path (Req_push_back ob) = True"
| "growable_path l = False"

section \<open>Classes whose methods throw, and well-formed pool states\<close>

text \<open>A class of objects of which exactly the given call throws.\<close>

definition throws_on :: "call \<Rightarrow> object_class" where
  "throws_on c = (\<lambda>d. d = c)"

text \<open>
  What holds of the pool between calls as long as every release is passed an active
  object: no object is twice in the two collections, the collections hold exactly the
  objects created so far, an object has been activated once more than deactivated if it
  is active and equally often if not, every address below \<open>heap\<close> has been allocated
  once, nothing has been deleted, and the update thread has not been told to stop.
\<close>

definition consistent :: "pool \<Rightarrow> bool" where
  "consistent p \<longleftrightarrow>
     distinct (objects p @ activeObjects p) \<and>
     set (objects p) \<union> set (activeObjects p) = {0 ..< heap p} \<and>
     (\<forall>x. count_list (calls p) (Activate x) =
            count_list (calls p) (Deactivate x) + (if x \<in> set (activeObjects p) then 1 else 0)) \<and>
     (\<forall>x. count_list (calls p) (New x) = (if x < heap p then 1 else 0)) \<and>
     (\<forall>x. Delete x \<notin> set (calls p)) \<and>
     \<not> stopUpdateFlag p \<and> updateThread p = Running"

declare fill.simps [simp del] drain.simps [simp del] delete_all.simps [simp del]

section \<open>Facts about single calls\<close>

lemma await_object_Some: "await_object q = Some r \<Longrightarrow> objects q \<noteq> []"
  by (rule await_object.raw_induct [where P = "\<lambda>q r. objects q \<noteq> []"])
     (auto split: if_splits)

lemma await_object_eq: "await_object p = (if objects p = [] then None else Some p)"
proof (cases "objects p = []")
  case False
  then show ?thesis by (subst await_object.simps) simp
next
  case True
  then have "await_object p = None"
    using await_object_Some [of p] by (cases "await_object p") auto
  with True show ?thesis by simp
qed

lemma push_new_sel [simp]:
  "objects (push_new p) = objects p @ [heap p]"
  "heap (push_new p) = Suc (heap p)"
  "calls (push_new p) = calls p @ [New (heap p)]"
  "activeObjects (push_new p) = activeObjects p"
  "expandable (push_new p) = expandable p"
  "stopUpdateFlag (push_new p) = stopUpdateFlag p"
  "updateThread (push_new p) = updateThread p"
  by (simp_all add: push_new_def record_call_def)

lemma fill_step: "i < n \<Longrightarrow> fill i n p = fill (i + 1) n (push_new p)"
  by (subst fill.simps) simp

lemma fill_stop: "\<not> i < n \<Longrightarrow> fill i n p = p"
  by (subst fill.simps) simp

lemma fill_eq:
  "fill i n p =
     p\<lparr>objects := objects p @ [heap p ..< heap p + nat (n - i)],
       heap := heap p + nat (n - i),
       calls := calls p @ map New [heap p ..< heap p + nat (n - i)]\<rparr>"
proof (induction i n p rule: fill.induct)
  case (1 i n p)
  show ?case
  proof (cases "i < n")
    case False
    then show ?thesis by (simp add: fill_stop)
  next
    case True
    then have k: "nat (n - i) = Suc (nat (n - (i + 1)))" by simp
    have "fill i n p = fill (i + 1) n (push_new p)"
      using True by (rule fill_step)
    also have "\<dots> = (push_new p)\<lparr>objects := objects (push_new p) @ [heap (push_new p) ..< heap (push_new p) + nat (n - (i + 1))],
       heap := heap (push_new p) + nat (n - (i + 1)),
       calls := calls (push_new p) @ map New [heap (push_new p) ..< heap (push_new p) + nat (n - (i + 1))]\<rparr>"
      by (rule "1.IH" [OF True])
    also have "\<dots> = p\<lparr>objects := objects p @ [heap p ..< heap p + nat (n - i)],
       heap := heap p + nat (n - i),
       calls := calls p @ map New [heap p ..< heap p + nat (n - i)]\<rparr>"
      unfolding k
      by (simp add: push_new_def record_call_def upt_conv_Cons)
    finally show ?thesis .
  qed
qed


lemma ObjectPool_2_eq:
  "ObjectPool_2 n e =
     \<lparr>expandable = e, objects = [0 ..< nat n], activeObjects = [], updateThread = Running,
      stopUpdateFlag = False, heap = nat n, calls = map New [0 ..< nat n]\<rparr>"
  by (simp add: ObjectPool_2_def fill_eq empty_pool_def)

lemma ObjectPool_1_eq: "ObjectPool_1 n = ObjectPool_2 n False"
  by (simp add: ObjectPool_1_def ObjectPool_2_def)

lemma requestObject_Object:
  "requestObject Object p =
     (if \<not> expandable p \<and> objects p = [] then Blocked
      else let q = (if objects p = [] then push_new p else p)
           in Returned (hd (objects q))
                (q\<lparr>objects := tl (objects q),
                   activeObjects := activeObjects q @ [hd (objects q)],
                   calls := calls q @ [Activate (hd (objects q))]\<rparr>))"
  by (cases "objects p")
     (simp_all add: requestObject_def await_object_eq Object_def Let_def record_call_def)

lemma releaseObject_Object:
  "releaseObject Object ob p =
     Returned () (p\<lparr>objects := objects p @ [ob],
                    activeObjects := removeAll ob (activeObjects p),
                    calls := calls p @ [Deactivate ob, Notify_one]\<rparr>)"
  by (simp add: releaseObject_def Object_def Let_def record_call_def)

lemma update_all_Object:
  "update_all Object xs p = Returned () (p\<lparr>calls := calls p @ map Update xs\<rparr>)"
  by (induction xs arbitrary: p) (simp_all add: Object_def Let_def record_call_def)

lemma updateLoop_stopped: "stopUpdateFlag p \<Longrightarrow> updateLoop c p = Some (Returned () p)"
  by (subst updateLoop.simps) simp

section \<open>Facts about the destructor\<close>

lemma stop_update_thread_eq:
  "stop_update_thread c p =
     Returned () (p\<lparr>updateThread := Joined, stopUpdateFlag := True,
                    calls := calls p @ [Notify_all, Join]\<rparr>)"
  by (simp add: stop_update_thread_def updateLoop_stopped record_call_def)

lemma drain_empty: "activeObjects p = [] \<Longrightarrow> drain c p = Returned () p"
  by (subst drain.simps) simp

lemma drain_step:
  "activeObjects p \<noteq> [] \<Longrightarrow>
   drain Object p =
     drain Object (p\<lparr>objects := objects p @ [hd (activeObjects p)],
                     activeObjects := removeAll (hd (activeObjects p)) (activeObjects p),
                     calls := calls p @ [Deactivate (hd (activeObjects p)), Notify_one]\<rparr>)"
  by (subst drain.simps) (simp add: releaseObject_Object)

lemma drain_Object:
  "activeObjects p = xs \<Longrightarrow> distinct xs \<Longrightarrow>
   drain Object p =
     Returned () (p\<lparr>objects := objects p @ xs, activeObjects := [],
                    calls := calls p @ concat (map (\<lambda>x. [Deactivate x, Notify_one]) xs)\<rparr>)"
proof (induction xs arbitrary: p)
  case Nil
  then show ?case by (simp add: drain_empty)
next
  case (Cons x xs)
  let ?q = "p\<lparr>objects := objects p @ [x], activeObjects := xs,
              calls := calls p @ [Deactivate x, Notify_one]\<rparr>"
  have "drain Object p = drain Object ?q"
    using Cons.prems by (simp add: drain_step)
  also have "\<dots> = Returned () (?q\<lparr>objects := objects ?q @ xs, activeObjects := [],
                    calls := calls ?q @ concat (map (\<lambda>x. [Deactivate x, Notify_one]) xs)\<rparr>)"
    using Cons.prems by (intro Cons.IH) simp_all
  finally show ?case by simp
qed

lemma delete_all_empty: "objects p = [] \<Longrightarrow> delete_all p = Returned () p"
  by (subst delete_all.simps) simp

lemma delete_all_step:
  "objects p = x # xs \<Longrightarrow> Delete x \<notin> set (calls p) \<Longrightarrow>
   delete_all p = delete_all (p\<lparr>objects := xs, calls := calls p @ [Delete x]\<rparr>)"
  by (subst delete_all.simps) (simp add: record_call_def)


lemma delete_all_eq:
  "objects p = xs \<Longrightarrow> distinct xs \<Longrightarrow> \<forall>x \<in> set xs. Delete x \<notin> set (calls p) \<Longrightarrow>
   delete_all p = Returned () (p\<lparr>objects := [], calls := calls p @ map Delete xs\<rparr>)"
proof (induction xs arbitrary: p)
  case Nil
  then show ?case by (simp add: delete_all_empty)
next
  case (Cons x xs)
  let ?q = "p\<lparr>objects := xs, calls := calls p @ [Delete x]\<rparr>"
  have "delete_all p = delete_all ?q"
    using Cons.prems by (simp add: delete_all_step)
  also have "\<dots> = Returned () (?q\<lparr>objects := [], calls := calls ?q @ map Delete xs\<rparr>)"
    using Cons.prems by (intro Cons.IH) auto
  finally show ?case by simp
qed

lemma ObjectPool_dtor_Object:
  assumes "distinct (objects p @ activeObjects p)" and "\<forall>x. Delete x \<notin> set (calls p)"
  shows "ObjectPool_dtor Object p =
           Returned ()
             (p\<lparr>objects := [], activeObjects := [], updateThread := Joined,
                stopUpdateFlag := True,
                calls := calls p @ [Notify_all, Join] @
                         concat (map (\<lambda>x. [Deactivate x, Notify_one]) (activeObjects p)) @
                         map Delete (objects p @ activeObjects p)\<rparr>)"
proof -
  let ?p1 = "p\<lparr>updateThread := Joined, stopUpdateFlag := True,
               calls := calls p @ [Notify_all, Join]\<rparr>"
  let ?p2 = "?p1\<lparr>objects := objects ?p1 @ activeObjects p, activeObjects := [],
               calls := calls ?p1 @
                        concat (map (\<lambda>x. [Deactivate x, Notify_one]) (activeObjects p))\<rparr>"
  have d: "drain Object ?p1 = Returned () ?p2"
    using assms by (intro drain_Object) simp_all
  have "delete_all ?p2 =
          Returned () (?p2\<lparr>objects := [],
                          calls := calls ?p2 @ map Delete (objects p @ activeObjects p)\<rparr>)"
    using assms by (intro delete_all_eq) (auto simp: set_concat)
  with d show ?thesis
    by (simp add: ObjectPool_dtor_def stop_update_thread_eq)
qed

section \<open>Sequences of calls that keep the contract of release\<close>

lemma count_list_map_other:
  "(\<And>x. f x \<noteq> c) \<Longrightarrow> count_list (map f xs) c = 0"
  by (induction xs) auto

lemma pool_step_Acquire:
  "pool_step Acquire p =
     (if \<not> expandable p \<and> objects p = [] then None
      else let q = (if objects p = [] then push_new p else p)
           in Some (Acquired (hd (objects q)),
                    q\<lparr>objects := tl (objects q),
                      activeObjects := activeObjects q @ [hd (objects q)],
                      calls := calls q @ [Activate (hd (objects q))]\<rparr>))"
  by (simp add: pool_step_def requestObject_Object Let_def)

lemma pool_step_Release:
  "pool_step (Release ob) p =
     Some (Released ob,
           p\<lparr>objects := objects p @ [ob],
             activeObjects := removeAll ob (activeObjects p),
             calls := calls p @ [Deactivate ob, Notify_one]\<rparr>)"
  by (simp add: pool_step_def releaseObject_Object)

lemma pool_step_Pass:
  "pool_step Pass p =
     (if stopUpdateFlag p then None
      else Some (Updated, p\<lparr>calls := calls p @ map Update (activeObjects p)\<rparr>))"
  by (simp add: pool_step_def update_all_Object)

lemma count_list_upt: "count_list [0 ..< n] x = (if x < n then 1 else 0)"
  by (induction n) auto

lemma count_list_map_New: "count_list (map New xs) (New x) = count_list xs x"
  by (induction xs) auto

lemma consistent_init: "consistent (ObjectPool_2 n e)"
  by (auto simp: consistent_def ObjectPool_2_eq count_list_map_other count_list_map_New
        count_list_upt)

lemma consistent_Acquire:
  assumes "consistent p" and "pool_step Acquire p = Some (e, p')"
  shows "consistent p'"
proof (cases "objects p")
  case Nil
  with assms(2) have ex: "expandable p"
    by (simp add: pool_step_Acquire split: if_splits)
  with Nil assms(2) have p': "p' = p\<lparr>objects := [], activeObjects := activeObjects p @ [heap p],
      heap := Suc (heap p), calls := calls p @ [New (heap p), Activate (heap p)]\<rparr>"
    by (auto simp: pool_step_Acquire push_new_def record_call_def)
  from assms(1) Nil have "heap p \<notin> set (activeObjects p)"
    by (auto simp: consistent_def)
  with assms(1) Nil show ?thesis
    unfolding p' consistent_def by (auto simp: atLeast0_lessThan_Suc)
next
  case (Cons x xs)
  with assms(2) have p': "p' = p\<lparr>objects := xs, activeObjects := activeObjects p @ [x],
      calls := calls p @ [Activate x]\<rparr>"
    by (simp add: pool_step_Acquire)
  from assms(1) Cons show ?thesis
    unfolding p' consistent_def by auto
qed

lemma consistent_Release:
  assumes "consistent p" and "ob \<in> set (activeObjects p)"
    and "pool_step (Release ob) p = Some (e, p')"
  shows "consistent p'"
proof -
  from assms(3) have p': "p' = p\<lparr>objects := objects p @ [ob],
             activeObjects := removeAll ob (activeObjects p),
             calls := calls p @ [Deactivate ob, Notify_one]\<rparr>"
    by (simp add: pool_step_Release)
  from assms(1,2) show ?thesis
    unfolding p' consistent_def by (auto simp: distinct_removeAll)
qed

lemma consistent_Pass:
  assumes "consistent p" and "pool_step Pass p = Some (e, p')"
  shows "consistent p'"
  using assms
  by (auto simp: pool_step_Pass consistent_def count_list_map_other split: if_splits)

lemma consistent_step:
  assumes "consistent p" and "pool_step a p = Some (e, p')"
    and "case a of Release ob \<Rightarrow> ob \<in> set (activeObjects p) | _ \<Rightarrow> True"
  shows "consistent p'"
  using assms
  by (cases a) (auto intro: consistent_Acquire consistent_Release consistent_Pass)

lemma fixed_size_step:
  assumes "\<not> expandable p" and "pool_step a p = Some (e, p')"
  shows "\<not> expandable p' \<and> heap p' = heap p"
  using assms
  by (cases a) (auto simp: pool_step_Acquire pool_step_Release pool_step_Pass split: if_splits)

lemma run_consistent:
  "consistent p \<Longrightarrow> releases_active ops p \<Longrightarrow> run ops p = Some (evs, p') \<Longrightarrow> consistent p'"
proof (induction ops arbitrary: p evs)
  case Nil
  then show ?case by simp
next
  case (Cons a ops)
  from Cons.prems(3) obtain e p1 es where
    st: "pool_step a p = Some (e, p1)" and rest: "run ops p1 = Some (es, p')"
    by (auto split: option.splits)
  from Cons.prems(1,2) st have "consistent p1"
    by (intro consistent_step [OF _ st]) auto
  moreover from Cons.prems(2) st have "releases_active ops p1" by simp
  ultimately show ?case using rest by (rule Cons.IH)
qed

lemma run_fixed_size:
  "\<not> expandable p \<Longrightarrow> run ops p = Some (evs, p') \<Longrightarrow> \<not> expandable p' \<and> heap p' = heap p"
proof (induction ops arbitrary: p evs)
  case Nil
  then show ?case by simp
next
  case (Cons a ops)
  from Cons.prems(2) obtain e p1 es where
    st: "pool_step a p = Some (e, p1)" and rest: "run ops p1 = Some (es, p')"
    by (auto split: option.splits)
  from fixed_size_step [OF Cons.prems(1) st] Cons.IH [OF _ rest] show ?case by simp
qed

lemma consistent_active_bound:
  assumes "consistent p"
  shows "length (activeObjects p) \<le> heap p"
proof -
  from assms have d: "distinct (activeObjects p)" and s: "set (activeObjects p) \<subseteq> {0 ..< heap p}"
    by (auto simp: consistent_def)
  from d have "length (activeObjects p) = card (set (activeObjects p))"
    by (simp add: distinct_card)
  also from s have "\<dots> \<le> card {0 ..< heap p}"
    by (intro card_mono) auto
  finally show ?thesis by simp
qed


lemma acquired_was_free:
  assumes "consistent p" and "pool_step a p = Some (Acquired r, p1)"
  shows "r \<notin> set (activeObjects p) \<and> r \<in> set (activeObjects p1)"
proof (cases a)
  case Acquire
  show ?thesis
  proof (cases "objects p")
    case Nil
    with assms Acquire show ?thesis
      by (auto simp: pool_step_Acquire consistent_def split: if_splits)
  next
    case (Cons x xs)
    with assms Acquire show ?thesis
      by (auto simp: pool_step_Acquire consistent_def split: if_splits)
  qed
next
  case (Release ob)
  with assms(2) show ?thesis by (simp add: pool_step_Release)
next
  case Pass
  with assms(2) show ?thesis by (simp add: pool_step_Pass split: if_splits)
qed

lemma stays_active:
  assumes "pool_step a p = Some (e, p1)" and "r \<in> set (activeObjects p)" and "e \<noteq> Released r"
  shows "r \<in> set (activeObjects p1)"
  using assms
  by (cases a) (auto simp: pool_step_Acquire pool_step_Release pool_step_Pass Let_def split: if_splits)

lemma held_until_released:
  "consistent p \<Longrightarrow> releases_active ops p \<Longrightarrow> run ops p = Some (evs, p') \<Longrightarrow>
   r \<in> set (activeObjects p) \<Longrightarrow> evs = B @ Acquired r # C \<Longrightarrow> Released r \<in> set B"
proof (induction ops arbitrary: p evs B)
  case Nil
  then show ?case by simp
next
  case (Cons a ops)
  from Cons.prems(3) obtain e p1 es where
    st: "pool_step a p = Some (e, p1)" and rest: "run ops p1 = Some (es, p')"
    and evs: "evs = e # es"
    by (auto split: option.splits)
  have c1: "consistent p1"
    using Cons.prems(1,2) st by (intro consistent_step [OF _ st]) auto
  have r1: "releases_active ops p1"
    using Cons.prems(2) st by simp
  show ?case
  proof (cases B)
    case Nil
    with evs Cons.prems(5) have "e = Acquired r" by simp
    with acquired_was_free [OF Cons.prems(1)] st Cons.prems(4) show ?thesis by blast
  next
    case (Cons b B')
    with evs Cons.prems(5) have b: "b = e" and es: "es = B' @ Acquired r # C" by auto
    show ?thesis
    proof (cases "e = Released r")
      case True
      with b Cons show ?thesis by simp
    next
      case False
      with st Cons.prems(4) have "r \<in> set (activeObjects p1)" by (rule stays_active)
      with Cons.IH [OF c1 r1 rest _ es] have "Released r \<in> set B'" by simp
      with Cons show ?thesis by simp
    qed
  qed
qed

lemma never_handed_out_twice:
  "consistent p \<Longrightarrow> releases_active ops p \<Longrightarrow> run ops p = Some (evs, p') \<Longrightarrow>
   evs = A @ Acquired r # B @ Acquired r # C \<Longrightarrow> Released r \<in> set B"
proof (induction ops arbitrary: p evs A)
  case Nil
  then show ?case by simp
next
  case (Cons a ops)
  from Cons.prems(3) obtain e p1 es where
    st: "pool_step a p = Some (e, p1)" and rest: "run ops p1 = Some (es, p')"
    and evs: "evs = e # es"
    by (auto split: option.splits)
  have c1: "consistent p1"
    using Cons.prems(1,2) st by (intro consistent_step [OF _ st]) auto
  have r1: "releases_active ops p1"
    using Cons.prems(2) st by simp
  show ?case
  proof (cases A)
    case Nil
    with evs Cons.prems(4) have e: "e = Acquired r" and es: "es = B @ Acquired r # C"
      by auto
    from acquired_was_free [OF Cons.prems(1)] st e have "r \<in> set (activeObjects p1)" by blast
    with c1 r1 rest show ?thesis using es by (rule held_until_released)
  next
    case (Cons a' A')
    with evs Cons.prems(4) have "es = A' @ Acquired r # B @ Acquired r # C" by simp
    with c1 r1 rest show ?thesis by (rule Cons.IH)
  qed
qed

lemma run_take:
  "run ops p = Some (evs, p') \<Longrightarrow> \<exists>es q. run (take k ops) p = Some (es, q)"
proof (induction ops arbitrary: p evs k)
  case Nil
  then show ?case by simp
next
  case (Cons a ops)
  from Cons.prems obtain e p1 es where
    st: "pool_step a p = Some (e, p1)" and rest: "run ops p1 = Some (es, p')"
    by (auto split: option.splits)
  show ?case
  proof (cases k)
    case 0
    then show ?thesis by simp
  next
    case (Suc j)
    from Cons.IH [OF rest, of j] obtain es' q where "run (take j ops) p1 = Some (es', q)"
      by blast
    with st Suc show ?thesis by simp
  qed
qed

lemma releases_active_take:
  "releases_active ops p \<Longrightarrow> releases_active (take k ops) p"
proof (induction ops arbitrary: p k)
  case Nil
  then show ?case by simp
next
  case (Cons a ops)
  show ?case
  proof (cases k)
    case 0
    then show ?thesis by simp
  next
    case (Suc j)
    with Cons show ?thesis by (auto split: option.splits)
  qed
qed

lemma fixed_pool_bound:
  assumes "run ops (ObjectPool_2 n False) = Some (evs, p)"
    and "releases_active ops (ObjectPool_2 n False)"
  shows "length (activeObjects p) \<le> nat n"
proof -
  have "consistent p"
    using consistent_init assms(2,1) by (rule run_consistent)
  then have "length (activeObjects p) \<le> heap p" by (rule consistent_active_bound)
  moreover have "heap p = heap (ObjectPool_2 n False)"
    using run_fixed_size [OF _ assms(1)] by (simp add: ObjectPool_2_eq)
  ultimately show ?thesis by (simp add: ObjectPool_2_eq)
qed





section \<open>Facts about the threads\<close>

lemmas step_defs = step_def lock_def unlock_def goto_def on_pool_def

lemma step_flag:
  assumes "step t s = Some s1" and "stopUpdateFlag (state s)"
  shows "stopUpdateFlag (state s1)"
  using assms
  by (cases "pcs s t")
     (auto simp: step_defs record_call_def push_new_def update_all_Object
           split: if_splits list.splits)

lemma step_other:
  assumes "step t' s = Some s1" and "t' \<noteq> t"
  shows "pcs s1 t = pcs s t"
  using assms
  by (cases "pcs s t'")
     (auto simp: step_defs update_all_Object split: if_splits list.splits)

lemma step_updater:
  assumes "step t s = Some s1" and "stopUpdateFlag (state s)" and "in_updateLoop (pcs s t)"
  shows "steps_to_exit (pcs s1 t) < steps_to_exit (pcs s t) \<and>
         (in_updateLoop (pcs s1 t) \<or> pcs s1 t = Done None)"
  using assms
  by (cases "pcs s t") (auto simp: step_defs update_all_Object split: if_splits)

lemma updater_exits:
  "exec sch s = Some s' \<Longrightarrow> stopUpdateFlag (state s) \<Longrightarrow>
   in_updateLoop (pcs s t) \<or> pcs s t = Done None \<Longrightarrow>
   steps_to_exit (pcs s t) \<le> count_list sch t \<Longrightarrow> pcs s' t = Done None"
proof (induction sch arbitrary: s)
  case Nil
  then show ?case by (cases "pcs s t") auto
next
  case (Cons t' sch)
  from Cons.prems(1) obtain s1 where st: "step t' s = Some s1" and rest: "exec sch s1 = Some s'"
    by (auto split: option.splits)
  have f1: "stopUpdateFlag (state s1)" using st Cons.prems(2) by (rule step_flag)
  show ?case
  proof (cases "t' = t")
    case False
    with st have "pcs s1 t = pcs s t" by (rule step_other)
    with Cons.prems(3,4) False Cons.IH [OF rest f1] show ?thesis by simp
  next
    case True
    with st have "pcs s t \<noteq> Done None" by (auto simp: step_def)
    with Cons.prems(3) have "in_updateLoop (pcs s t)" by simp
    with st Cons.prems(2) True
    have "steps_to_exit (pcs s1 t) < steps_to_exit (pcs s t) \<and>
         (in_updateLoop (pcs s1 t) \<or> pcs s1 t = Done None)"
      by (intro step_updater) simp_all
    with Cons.prems(4) True Cons.IH [OF rest f1] show ?thesis by simp
  qed
qed


lemma request_alone:
  assumes "pcs s t = Req_enter" and "mutex s = None"
    and "requestObject Object (state s) = Returned ob p'"
  shows "\<exists>s'. exec [t, t, t, t, t, t] s = Some s' \<and> state s' = p' \<and> mutex s' = None \<and>
              waiting s' = waiting s \<and> pcs s' = (pcs s)(t := Done (Some ob))"
proof (cases "objects (state s)")
  case Nil
  with assms show ?thesis
    by (auto simp: requestObject_Object step_defs record_call_def push_new_def Let_def
          split: if_splits)
next
  case (Cons x xs)
  with assms show ?thesis
    by (auto simp: requestObject_Object step_defs record_call_def Let_def split: if_splits)
qed

lemma request_alone_blocks:
  assumes "pcs s t = Req_enter" and "mutex s = None"
    and "requestObject Object (state s) = Blocked"
  shows "\<exists>s'. exec [t, t] s = Some s' \<and> exec [t, t, t, t] s = Some s' \<and>
              state s' = state s \<and> mutex s' = None \<and> waiting s' = Suc (waiting s) \<and>
              pcs s' = (pcs s)(t := Req_wait)"
  using assms
  by (auto simp: requestObject_Object step_defs Let_def split: if_splits)

lemma release_alone:
  assumes "pcs s t = Rel_enter c ob" and "mutex s = None"
    and "releaseObject Object ob (state s) = Returned () p'"
  shows "\<exists>s'. exec [t, t, t, t, t] s = Some s' \<and> state s' = p' \<and> mutex s' = None \<and>
              waiting s' = waiting s \<and> pcs s' = (pcs s)(t := return_to c)"
  using assms
  by (auto simp: releaseObject_Object step_defs record_call_def)

lemma update_loop_alone:
  assumes "pcs s t = Upd_test" and "mutex s = None" and "\<not> stopUpdateFlag (state s)"
    and "update_all Object (activeObjects (state s)) (state s) = Returned () p'"
  shows "\<exists>s'. exec [t, t, t] s = Some s' \<and> state s' = p' \<and> mutex s' = None \<and>
              waiting s' = waiting s \<and> pcs s' = pcs s"
  using assms
  by (auto simp: step_defs fun_upd_idem_iff)






text \<open>On a pool with no object a waiting request never returns, whatever the schedule.\<close>

lemma no_object_ever_step:
  assumes "no_object_ever s" and "step t s = Some s1"
  shows "no_object_ever s1"
proof -
  consider "t = 0" | "t = 1" | "t = 2" | "2 < t" by linarith
  then show ?thesis
  proof cases
    case 1
    with assms show ?thesis
      by (cases "pcs s 0")
         (auto simp: no_object_ever_def step_defs split: if_splits)
  next
    case 2
    with assms show ?thesis
      by (cases "pcs s 1")
         (auto simp: no_object_ever_def step_defs split: if_splits)
  next
    case 3
    with assms show ?thesis
      by (cases "pcs s 2")
         (auto simp: no_object_ever_def step_defs record_call_def updater_def
               split: if_splits)
  next
    case 4
    with assms show ?thesis
      by (auto simp: no_object_ever_def step_def)
  qed
qed

lemma no_object_ever_exec:
  "exec sch s = Some s' \<Longrightarrow> no_object_ever s \<Longrightarrow> no_object_ever s'"
  by (induction sch arbitrary: s) (auto split: option.splits intro: no_object_ever_step)

lemma waiter_never_returns:
  assumes "exec sch (start (ObjectPool_2 0 False) (idle(1 := Req_enter, 2 := Dtor_stop))) = Some s'"
  shows "request_waits (pcs s' 1)"
proof -
  have "no_object_ever (start (ObjectPool_2 0 False) (idle(1 := Req_enter, 2 := Dtor_stop)))"
    by (simp add: no_object_ever_def start_def ObjectPool_2_eq idle_def updater_def)
  with assms have "no_object_ever s'" by (rule no_object_ever_exec)
  then show ?thesis by (simp add: no_object_ever_def)
qed

text \<open>
  Mutual exclusion holds among the critical sections; the statements of
  \<^verbatim>\<open>requestObject\<close> at lines 90 to 97 are not in one. In every state the threads
  reach, a thread at one of these lines does not own the mutex, can take its step, and
  does to the pool what it would do with any other owner of the mutex.
\<close>

lemma return_to_unlocked [simp]: "\<not> holds_mutex (return_to c)"
  by (cases c) simp_all

lemma mutex_ok_step:
  assumes "mutex_ok s" and "step t s = Some s1"
  shows "mutex_ok s1"
proof -
  from assms(1) have own: "holds_mutex (pcs s u) = (mutex s = Some u)" for u
    by (simp add: mutex_ok_def)
  show ?thesis
    unfolding mutex_ok_def
  proof
    fix u
    show "holds_mutex (pcs s1 u) = (mutex s1 = Some u)"
      using assms(2) own [of u] own [of t]
      by (cases "pcs s t")
         (auto simp: step_defs update_all_Object split: if_splits list.splits caller.splits)
  qed
qed

lemma mutex_ok_exec: "exec sch s = Some s' \<Longrightarrow> mutex_ok s \<Longrightarrow> mutex_ok s'"
  by (induction sch arbitrary: s) (auto split: option.splits intro: mutex_ok_step)

lemma mutex_ok_start: "\<forall>t. \<not> holds_mutex (callers t) \<Longrightarrow> mutex_ok (start p callers)"
  by (simp add: mutex_ok_def start_def)

lemma request_without_mutex:
  assumes "exec sch (start p callers) = Some s" and "\<forall>t. \<not> holds_mutex (callers t)"
    and "outside_mutex (pcs s t)"
  shows "mutex s \<noteq> Some t \<and> step t s \<noteq> None \<and>
         map_option state (step t (s\<lparr>mutex := m\<rparr>)) = map_option state (step t s)"
proof -
  have "mutex_ok s"
    using assms(1) mutex_ok_start [OF assms(2)] by (rule mutex_ok_exec)
  then have "holds_mutex (pcs s t) = (mutex s = Some t)" by (simp add: mutex_ok_def)
  with assms(3) show ?thesis
    by (cases "pcs s t") (auto simp: step_defs split: list.splits)
qed

lemmas run_defs = step_defs start_def view_def idle_def updater_def ObjectPool_2_eq
  upt_conv_Cons record_call_def push_new_def update_all_Object

section \<open>The two constructors\<close>

text \<open>
  Claim C10. For every \<open>n\<close>, the pool built by the one-argument constructor is the pool
  built by the two-argument constructor with \<open>expandable = false\<close>: \<open>n\<close> objects
  (none for a negative \<open>n\<close>) in \<^verbatim>\<open>objects\<close>, nothing active, not expandable, the update
  thread running. Being the same state, the two give the same results for every
  sequence of calls, for the destructor and for every schedule of threads.
\<close>

theorem constructors_agree:
  "ObjectPool_1 n = ObjectPool_2 n False \<and>
   objects (ObjectPool_1 n) = [0 ..< nat n] \<and>
   length (objects (ObjectPool_2 n False)) = nat n \<and>
   activeObjects (ObjectPool_1 n) = [] \<and>
   expandable (ObjectPool_1 n) = False \<and>
   updateThread (ObjectPool_1 n) = Running \<and>
   stopUpdateFlag (ObjectPool_1 n) = False \<and>
   run ops (ObjectPool_1 n) = run ops (ObjectPool_2 n False) \<and>
   ObjectPool_dtor c (ObjectPool_1 n) = ObjectPool_dtor c (ObjectPool_2 n False) \<and>
   exec sch (start (ObjectPool_1 n) callers) = exec sch (start (ObjectPool_2 n False) callers)"
  by (simp add: ObjectPool_1_eq ObjectPool_2_eq)

section \<open>Releasing an object that is not active\<close>

text \<open>
  \<^verbatim>\<open>releaseObject\<close> has no check of its argument. Released a second time, object 0 of a
  pool of one is in \<^verbatim>\<open>objects\<close> twice, and the call returns as any other.
\<close>

theorem double_release_counterexample:
  "run [Acquire, Release 0] (ObjectPool_2 1 False) =
     Some ([Acquired 0, Released 0],
       \<lparr>expandable = False, objects = [0], activeObjects = [], updateThread = Running,
        stopUpdateFlag = False, heap = 1,
        calls = [New 0, Activate 0, Deactivate 0, Notify_one]\<rparr>) \<and>
   releaseObject Object 0
       \<lparr>expandable = False, objects = [0], activeObjects = [], updateThread = Running,
        stopUpdateFlag = False, heap = 1,
        calls = [New 0, Activate 0, Deactivate 0, Notify_one]\<rparr> =
     Returned ()
       \<lparr>expandable = False, objects = [0, 0], activeObjects = [], updateThread = Running,
        stopUpdateFlag = False, heap = 1,
        calls = [New 0, Activate 0, Deactivate 0, Notify_one, Deactivate 0, Notify_one]\<rparr>"
  by (simp add: ObjectPool_2_eq pool_step_def requestObject_Object releaseObject_Object Let_def)

text \<open>
  Claim C2, as the code has it. For every object that is not in \<^verbatim>\<open>activeObjects\<close>,
  \<^verbatim>\<open>releaseObject\<close> reports nothing: it returns, having called \<^verbatim>\<open>deactivate\<close> on the
  object, appended it to \<^verbatim>\<open>objects\<close> (one more entry, whether or not the object is
  there already) and notified one waiter; \<^verbatim>\<open>activeObjects\<close> is unchanged.
\<close>

theorem release_of_inactive:
  assumes "ob \<notin> set (activeObjects p)"
  shows "releaseObject Object ob p =
           Returned () (p\<lparr>objects := objects p @ [ob],
                          calls := calls p @ [Deactivate ob, Notify_one]\<rparr>)"
  using assms by (simp add: releaseObject_Object)

theorem release_of_inactive_witness:
  "0 \<notin> set (activeObjects (ObjectPool_2 1 False)) \<and>
   releaseObject Object 0 (ObjectPool_2 1 False) =
     Returned ()
       \<lparr>expandable = False, objects = [0, 0], activeObjects = [], updateThread = Running,
        stopUpdateFlag = False, heap = 1, calls = [New 0, Deactivate 0, Notify_one]\<rparr>"
  using release_of_inactive [of 0 "ObjectPool_2 1 False"]
  by (simp add: ObjectPool_2_eq)

section \<open>Requests on an expandable pool\<close>

text \<open>
  Run as a single call, \<^verbatim>\<open>requestObject\<close> on an expandable pool hands out the front
  of \<^verbatim>\<open>objects\<close> and creates nothing, or creates one object and hands that one out;
  it never waits, and no statement on its path needs the mutex.
\<close>

lemma request_on_expandable:
  assumes "expandable p"
  shows "requestObject Object p =
           (if objects p = []
            then Returned (heap p)
                   (p\<lparr>objects := [], activeObjects := activeObjects p @ [heap p],
                      heap := Suc (heap p),
                      calls := calls p @ [New (heap p), Activate (heap p)]\<rparr>)
            else Returned (hd (objects p))
                   (p\<lparr>objects := tl (objects p),
                      activeObjects := activeObjects p @ [hd (objects p)],
                      calls := calls p @ [Activate (hd (objects p))]\<rparr>)) \<and>
         requestObject c p \<noteq> Blocked \<and>
         (\<forall>s t. state s = p \<and> growable_path (pcs s t) \<longrightarrow> step t s \<noteq> None)"
proof (intro conjI allI impI)
  show "requestObject Object p =
           (if objects p = []
            then Returned (heap p)
                   (p\<lparr>objects := [], activeObjects := activeObjects p @ [heap p],
                      heap := Suc (heap p),
                      calls := calls p @ [New (heap p), Activate (heap p)]\<rparr>)
            else Returned (hd (objects p))
                   (p\<lparr>objects := tl (objects p),
                      activeObjects := activeObjects p @ [hd (objects p)],
                      calls := calls p @ [Activate (hd (objects p))]\<rparr>))"
    using assms by (simp add: requestObject_Object push_new_def record_call_def)
  show "requestObject c p \<noteq> Blocked"
    using assms
    by (cases "objects p")
       (simp_all add: requestObject_def push_new_def record_call_def Let_def)
next
  fix s :: system and t
  assume "state s = p \<and> growable_path (pcs s t)"
  with assms show "step t s \<noteq> None"
    by (cases "pcs s t") (auto simp: step_def split: list.splits)
qed

text \<open>
  Claim C4 does not hold of the code. The \<^verbatim>\<open>else\<close> branch of \<^verbatim>\<open>requestObject\<close> tests,
  creates, reads the front and pops with no lock (lines 90 to 95), where the other
  branch at least tests under the mutex and \<^verbatim>\<open>releaseObject\<close> and \<^verbatim>\<open>updateLoop\<close> lock
  for all they do. Two threads request at the same time from an expandable pool. On
  the empty pool one object is created, not two: the second thread finds the queue no
  longer empty, both read object 0 as the front, and the second pops an empty queue.
  On a pool of one nothing is created and the second thread pops an empty queue. On a
  pool of two both threads are handed object 0, and object 1 is in neither collection.
\<close>

theorem growable_requests_race:
  "map_option (view [0, 1, 2])
     (exec [1, 2, 1, 2, 1, 2, 1, 2, 1, 1]
        (start (ObjectPool_2 0 True) (idle(1 := Req_enter, 2 := Req_enter)))) =
     Some (\<lparr>expandable = True, objects = [], activeObjects = [0], updateThread = Running,
            stopUpdateFlag = False, heap = 1, calls = [New 0, Activate 0]\<rparr>,
           None, [Upd_test, Done (Some 0), Crashed]) \<and>
   map_option (view [0, 1, 2])
     (exec [1, 2, 1, 2, 1, 2, 1, 2, 1, 1]
        (start (ObjectPool_2 1 True) (idle(1 := Req_enter, 2 := Req_enter)))) =
     Some (\<lparr>expandable = True, objects = [], activeObjects = [0], updateThread = Running,
            stopUpdateFlag = False, heap = 1, calls = [New 0, Activate 0]\<rparr>,
           None, [Upd_test, Done (Some 0), Crashed]) \<and>
   map_option (view [0, 1, 2])
     (exec [1, 2, 1, 2, 1, 2, 1, 2, 1, 2, 1, 2]
        (start (ObjectPool_2 2 True) (idle(1 := Req_enter, 2 := Req_enter)))) =
     Some (\<lparr>expandable = True, objects = [], activeObjects = [0, 0], updateThread = Running,
            stopUpdateFlag = False, heap = 2,
            calls = [New 0, New 1, Activate 0, Activate 0]\<rparr>,
           None, [Upd_test, Done (Some 0), Done (Some 0)])"
  by (simp add: run_defs)

section \<open>Methods that throw\<close>

text \<open>
  \<^verbatim>\<open>requestObject\<close> pops the object before it calls \<^verbatim>\<open>activate\<close>, and has no handler.
  With a class whose \<^verbatim>\<open>activate\<close> throws on object 0, the request on a pool of one
  leaves object 0 in neither collection, and the destructor that follows deletes
  nothing.
\<close>

theorem activate_failure_counterexample:
  "requestObject (throws_on (Activate 0)) (ObjectPool_2 1 False) =
     Raised (Activate 0)
       \<lparr>expandable = False, objects = [], activeObjects = [], updateThread = Running,
        stopUpdateFlag = False, heap = 1, calls = [New 0, Activate 0]\<rparr> \<and>
   ObjectPool_dtor Object
       \<lparr>expandable = False, objects = [], activeObjects = [], updateThread = Running,
        stopUpdateFlag = False, heap = 1, calls = [New 0, Activate 0]\<rparr> =
     Returned ()
       \<lparr>expandable = False, objects = [], activeObjects = [], updateThread = Joined,
        stopUpdateFlag = True, heap = 1, calls = [New 0, Activate 0, Notify_all, Join]\<rparr>"
  by (simp add: requestObject_def await_object_eq ObjectPool_2_eq throws_on_def record_call_def
        ObjectPool_dtor_Object)

text \<open>
  Claim C6, as the code has it. If \<^verbatim>\<open>activate\<close> throws during \<^verbatim>\<open>requestObject\<close>, the
  exception reaches the caller, and the object is not put into \<^verbatim>\<open>activeObjects\<close>; it
  has been taken off the front of \<^verbatim>\<open>objects\<close> before the call and is not put back
  (and not deleted). The first part is the case of a queue that is not empty, the
  second the case of an expandable pool that creates the object.
\<close>

theorem activate_failure:
  "(objects p \<noteq> [] \<and> c (Activate (hd (objects p))) \<longrightarrow>
      requestObject c p =
        Raised (Activate (hd (objects p)))
          (p\<lparr>objects := tl (objects p),
             calls := calls p @ [Activate (hd (objects p))]\<rparr>)) \<and>
   (expandable p \<and> objects p = [] \<and> c (Activate (heap p)) \<longrightarrow>
      requestObject c p =
        Raised (Activate (heap p))
          (p\<lparr>heap := Suc (heap p),
             calls := calls p @ [New (heap p), Activate (heap p)]\<rparr>))"
  by (cases "objects p")
     (auto simp: requestObject_def await_object_eq Let_def record_call_def push_new_def)

theorem activate_failure_witness:
  "objects (ObjectPool_2 2 False) \<noteq> [] \<and>
   throws_on (Activate 0) (Activate (hd (objects (ObjectPool_2 2 False)))) \<and>
   requestObject (throws_on (Activate 0)) (ObjectPool_2 2 False) =
     Raised (Activate 0)
       \<lparr>expandable = False, objects = [1], activeObjects = [], updateThread = Running,
        stopUpdateFlag = False, heap = 2, calls = [New 0, New 1, Activate 0]\<rparr> \<and>
   expandable (ObjectPool_2 0 True) \<and> objects (ObjectPool_2 0 True) = [] \<and>
   throws_on (Activate 0) (Activate (heap (ObjectPool_2 0 True))) \<and>
   requestObject (throws_on (Activate 0)) (ObjectPool_2 0 True) =
     Raised (Activate 0)
       \<lparr>expandable = True, objects = [], activeObjects = [], updateThread = Running,
        stopUpdateFlag = False, heap = 1, calls = [New 0, Activate 0]\<rparr>"
  using activate_failure [of "ObjectPool_2 2 False" "throws_on (Activate 0)"]
    activate_failure [of "ObjectPool_2 0 True" "throws_on (Activate 0)"]
  by (simp add: ObjectPool_2_eq upt_conv_Cons throws_on_def)

text \<open>
  \<^verbatim>\<open>releaseObject\<close> calls \<^verbatim>\<open>deactivate\<close> first. With a class whose \<^verbatim>\<open>deactivate\<close> throws
  on object 0, the release of the active object 0 leaves it in \<^verbatim>\<open>activeObjects\<close> and
  \<^verbatim>\<open>objects\<close> empty.
\<close>

theorem deactivate_failure_counterexample:
  "requestObject (throws_on (Deactivate 0)) (ObjectPool_2 1 False) =
     Returned 0
       \<lparr>expandable = False, objects = [], activeObjects = [0], updateThread = Running,
        stopUpdateFlag = False, heap = 1, calls = [New 0, Activate 0]\<rparr> \<and>
   releaseObject (throws_on (Deactivate 0)) 0
       \<lparr>expandable = False, objects = [], activeObjects = [0], updateThread = Running,
        stopUpdateFlag = False, heap = 1, calls = [New 0, Activate 0]\<rparr> =
     Raised (Deactivate 0)
       \<lparr>expandable = False, objects = [], activeObjects = [0], updateThread = Running,
        stopUpdateFlag = False, heap = 1, calls = [New 0, Activate 0, Deactivate 0]\<rparr>"
  by (simp add: requestObject_def releaseObject_def await_object_eq ObjectPool_2_eq throws_on_def
        record_call_def)

text \<open>
  Claim C7, as the code has it. If \<^verbatim>\<open>deactivate\<close> throws during \<^verbatim>\<open>releaseObject\<close>, the
  exception reaches the caller and nothing else has happened: \<^verbatim>\<open>objects\<close> and
  \<^verbatim>\<open>activeObjects\<close> are as before the call (an active object stays active), and no
  waiter is notified.
\<close>

theorem deactivate_failure:
  assumes "c (Deactivate ob)"
  shows "releaseObject c ob p = Raised (Deactivate ob) (p\<lparr>calls := calls p @ [Deactivate ob]\<rparr>)"
  using assms by (simp add: releaseObject_def record_call_def)

theorem deactivate_failure_witness:
  "throws_on (Deactivate 0) (Deactivate 0) \<and>
   releaseObject (throws_on (Deactivate 0)) 0
       \<lparr>expandable = False, objects = [], activeObjects = [0], updateThread = Running,
        stopUpdateFlag = False, heap = 1, calls = [New 0, Activate 0]\<rparr> =
     Raised (Deactivate 0)
       \<lparr>expandable = False, objects = [], activeObjects = [0], updateThread = Running,
        stopUpdateFlag = False, heap = 1, calls = [New 0, Activate 0, Deactivate 0]\<rparr>"
  using deactivate_failure [of "throws_on (Deactivate 0)" 0
      "\<lparr>expandable = False, objects = [], activeObjects = [0], updateThread = Running,
        stopUpdateFlag = False, heap = 1, calls = [New 0, Activate 0]\<rparr>"]
  by (simp add: throws_on_def)

section \<open>A pool that cannot grow\<close>

text \<open>
  A pool of one, its object released twice and then requested twice: both requests
  return object 0 with no release in between, and \<^verbatim>\<open>activeObjects\<close> holds two entries.
\<close>

theorem fixed_pool_counterexample:
  "run [Acquire, Release 0, Release 0, Acquire, Acquire] (ObjectPool_2 1 False) =
     Some ([Acquired 0, Released 0, Released 0, Acquired 0, Acquired 0],
       \<lparr>expandable = False, objects = [], activeObjects = [0, 0], updateThread = Running,
        stopUpdateFlag = False, heap = 1,
        calls = [New 0, Activate 0, Deactivate 0, Notify_one, Deactivate 0, Notify_one,
                 Activate 0, Activate 0]\<rparr>) \<and>
   nat 1 < length [0, 0 :: obj]"
  by (simp add: ObjectPool_2_eq pool_step_Acquire pool_step_Release Let_def)

text \<open>
  Claim C1, for calls that take effect one after the other and releases of active
  objects only. On a pool that cannot grow, built with \<open>n\<close> objects, at most \<open>n\<close>
  objects are active after every sequence of requests, releases and update passes, and
  so after each of its prefixes; and between two requests that return the same object
  there is a release of that object.
\<close>

theorem fixed_pool_exclusive:
  assumes "run ops (ObjectPool_2 n False) = Some (evs, p)"
    and "releases_active ops (ObjectPool_2 n False)"
  shows "length (activeObjects p) \<le> nat n \<and>
         (\<forall>k. \<exists>es q. run (take k ops) (ObjectPool_2 n False) = Some (es, q) \<and>
                      length (activeObjects q) \<le> nat n) \<and>
         (\<forall>A B C r. evs = A @ Acquired r # B @ Acquired r # C \<longrightarrow> Released r \<in> set B)"
proof (intro conjI allI impI)
  show "length (activeObjects p) \<le> nat n"
    using assms by (rule fixed_pool_bound)
next
  fix k
  from run_take [OF assms(1), of k] obtain es q where
    r: "run (take k ops) (ObjectPool_2 n False) = Some (es, q)" by blast
  moreover have "length (activeObjects q) \<le> nat n"
    using r releases_active_take [OF assms(2)] by (rule fixed_pool_bound)
  ultimately show "\<exists>es q. run (take k ops) (ObjectPool_2 n False) = Some (es, q) \<and>
                      length (activeObjects q) \<le> nat n" by blast
next
  fix A B C r
  assume "evs = A @ Acquired r # B @ Acquired r # C"
  with consistent_init assms(2,1) show "Released r \<in> set B"
    by (rule never_handed_out_twice)
qed

theorem fixed_pool_exclusive_witness:
  "run [Acquire, Release 0, Acquire, Acquire] (ObjectPool_2 2 False) =
     Some ([Acquired 0, Released 0, Acquired 1, Acquired 0],
       \<lparr>expandable = False, objects = [], activeObjects = [1, 0], updateThread = Running,
        stopUpdateFlag = False, heap = 2,
        calls = [New 0, New 1, Activate 0, Deactivate 0, Notify_one, Activate 1, Activate 0]\<rparr>) \<and>
   releases_active [Acquire, Release 0, Acquire, Acquire] (ObjectPool_2 2 False) \<and>
   length [1, 0 :: obj] \<le> nat 2 \<and>
   Released 0 \<in> set [Released 0, Acquired 1]"
  using fixed_pool_exclusive [of "[Acquire, Release 0, Acquire, Acquire]" 2
      "[Acquired 0, Released 0, Acquired 1, Acquired 0]"
      "\<lparr>expandable = False, objects = [], activeObjects = [1, 0], updateThread = Running,
        stopUpdateFlag = False, heap = 2,
        calls = [New 0, New 1, Activate 0, Deactivate 0, Notify_one, Activate 1, Activate 0]\<rparr>"]
  by (simp add: ObjectPool_2_eq pool_step_Acquire pool_step_Release upt_conv_Cons Let_def)

section \<open>Teardown\<close>





section \<open>The update loop and the active objects\<close>

lemma updateLoop_returns:
  assumes "updateLoop c p = Some r"
  shows "c = Object \<longrightarrow> stopUpdateFlag p"
proof (rule updateLoop.raw_induct [where P = "\<lambda>c p r. c = Object \<longrightarrow> stopUpdateFlag p", OF _ assms])
  fix f :: "object_class \<Rightarrow> pool \<Rightarrow> unit outcome option" and c p r
  assume IH: "\<And>c p r. f c p = Some r \<Longrightarrow> c = Object \<longrightarrow> stopUpdateFlag p"
    and eq: "(if stopUpdateFlag p then Some (Returned () p)
      else case update_all c (activeObjects p) p of
           Returned u p1 \<Rightarrow> f c p1
           | Raised e p1 \<Rightarrow> Some (Raised e p1) | Blocked \<Rightarrow> Some Blocked
           | Undefined \<Rightarrow> Some Undefined) = Some r"
  show "c = Object \<longrightarrow> stopUpdateFlag p"
  proof
    assume c: "c = Object"
    show "stopUpdateFlag p"
    proof (rule ccontr)
      assume nf: "\<not> stopUpdateFlag p"
      with eq c
      have "f Object (p\<lparr>calls := calls p @ map Update (activeObjects p)\<rparr>) = Some r"
        by (simp add: update_all_Object)
      from IH [OF this] nf show False by simp
    qed
  qed
qed

lemma updateLoop_running: "\<not> stopUpdateFlag p \<Longrightarrow> updateLoop Object p = None"
  using updateLoop_returns [of Object p] by (cases "updateLoop Object p") auto

lemma update_all_throws:
  "x \<in> set xs \<Longrightarrow>
   update_all (throws_on (Update x)) xs p =
     Raised (Update x)
       (p\<lparr>calls := calls p @ map Update (takeWhile (\<lambda>y. y \<noteq> x) xs) @ [Update x]\<rparr>)"
  by (induction xs arbitrary: p) (auto simp: throws_on_def Let_def record_call_def)

lemma updateLoop_throws:
  "\<not> stopUpdateFlag p \<Longrightarrow> x \<in> set (activeObjects p) \<Longrightarrow>
   updateLoop (throws_on (Update x)) p =
     Some (Raised (Update x)
       (p\<lparr>calls := calls p @ map Update (takeWhile (\<lambda>y. y \<noteq> x) (activeObjects p)) @
                     [Update x]\<rparr>))"
  by (subst updateLoop.simps) (simp add: update_all_throws)

text \<open>
  After request, release, release, request on a pool of one, object 0 is in \<^verbatim>\<open>objects\<close>
  and in \<^verbatim>\<open>activeObjects\<close>, and the pass calls \<^verbatim>\<open>update\<close> on it.
\<close>

theorem update_pass_counterexample:
  "run [Acquire, Release 0, Release 0, Acquire] (ObjectPool_2 1 False) =
     Some ([Acquired 0, Released 0, Released 0, Acquired 0],
       \<lparr>expandable = False, objects = [0], activeObjects = [0], updateThread = Running,
        stopUpdateFlag = False, heap = 1,
        calls = [New 0, Activate 0, Deactivate 0, Notify_one, Deactivate 0, Notify_one,
                 Activate 0]\<rparr>) \<and>
   update_all Object [0]
       \<lparr>expandable = False, objects = [0], activeObjects = [0], updateThread = Running,
        stopUpdateFlag = False, heap = 1,
        calls = [New 0, Activate 0, Deactivate 0, Notify_one, Deactivate 0, Notify_one,
                 Activate 0]\<rparr> =
     Returned ()
       \<lparr>expandable = False, objects = [0], activeObjects = [0], updateThread = Running,
        stopUpdateFlag = False, heap = 1,
        calls = [New 0, Activate 0, Deactivate 0, Notify_one, Deactivate 0, Notify_one,
                 Activate 0, Update 0]\<rparr> \<and>
   0 \<in> set [0 :: obj]"
  by (simp add: ObjectPool_2_eq pool_step_Acquire pool_step_Release Let_def Object_def
        record_call_def)

text \<open>
  Claim C8, with the part on \<^verbatim>\<open>objects\<close> for calls that took effect one after the other
  and released active objects only. A pass of the update loop calls \<^verbatim>\<open>update\<close> on the
  objects of \<^verbatim>\<open>activeObjects\<close>, each once and in order, and on nothing else; in every
  state the pool reaches by such calls, none of them is in \<^verbatim>\<open>objects\<close>. The flag is
  tested before every pass. Run alone, the loop returns at once when the flag is set
  and does not return while it is clear; and it does call \<^verbatim>\<open>update\<close>: with a class
  whose \<^verbatim>\<open>update\<close> throws on an active object, the exception leaves the loop after the
  calls on the objects before that one. Statement by statement, the thread goes from
  the test through one pass and back to the test while the flag is clear, leaves the
  loop at the test once the flag is set, and among other threads, whatever they do,
  has left the loop after at most three more steps of its own.
\<close>

theorem update_pass:
  "update_all Object (activeObjects p) p =
     Returned () (p\<lparr>calls := calls p @ map Update (activeObjects p)\<rparr>) \<and>
   (run ops (ObjectPool_2 n e) = Some (evs, p) \<and> releases_active ops (ObjectPool_2 n e) \<longrightarrow>
      (\<forall>x \<in> set (objects p). Update x \<notin> set (map Update (activeObjects p)))) \<and>
   (stopUpdateFlag p \<longrightarrow> updateLoop c p = Some (Returned () p)) \<and>
   (\<not> stopUpdateFlag p \<longrightarrow> updateLoop Object p = None) \<and>
   (\<not> stopUpdateFlag p \<and> x \<in> set (activeObjects p) \<longrightarrow>
      updateLoop (throws_on (Update x)) p =
        Some (Raised (Update x)
          (p\<lparr>calls := calls p @ map Update (takeWhile (\<lambda>y. y \<noteq> x) (activeObjects p)) @
                        [Update x]\<rparr>))) \<and>
   (\<forall>s t. state s = p \<and> pcs s t = Upd_test \<and> mutex s = None \<and> \<not> stopUpdateFlag p \<longrightarrow>
      (\<exists>s'. exec [t, t, t] s = Some s' \<and> pcs s' t = Upd_test \<and> mutex s' = None \<and>
         state s' = p\<lparr>calls := calls p @ map Update (activeObjects p)\<rparr>)) \<and>
   (\<forall>s t. state s = p \<and> pcs s t = Upd_test \<and> stopUpdateFlag p \<longrightarrow>
      step t s = Some (goto t (Done None) s)) \<and>
   (\<forall>s t sch s'. state s = p \<and> stopUpdateFlag p \<and> in_updateLoop (pcs s t) \<and>
      exec sch s = Some s' \<and> 3 \<le> count_list sch t \<longrightarrow> pcs s' t = Done None)"
proof -
  have free: "\<forall>x \<in> set (objects p). Update x \<notin> set (map Update (activeObjects p))"
    if "run ops (ObjectPool_2 n e) = Some (evs, p) \<and> releases_active ops (ObjectPool_2 n e)"
  proof -
    from that have "consistent p"
      using consistent_init run_consistent by blast
    then show ?thesis by (auto simp: consistent_def)
  qed
  have iter: "\<exists>s'. exec [t, t, t] s = Some s' \<and> pcs s' t = Upd_test \<and> mutex s' = None \<and>
         state s' = p\<lparr>calls := calls p @ map Update (activeObjects p)\<rparr>"
    if "state s = p \<and> pcs s t = Upd_test \<and> mutex s = None \<and> \<not> stopUpdateFlag p"
    for s :: system and t
  proof -
    from that obtain s' where "exec [t, t, t] s = Some s'"
      "state s' = p\<lparr>calls := calls p @ map Update (activeObjects p)\<rparr>"
      "mutex s' = None" "pcs s' = pcs s"
      using update_loop_alone [of s t "p\<lparr>calls := calls p @ map Update (activeObjects p)\<rparr>"]
      by (auto simp: update_all_Object)
    with that show ?thesis by simp
  qed
  have test: "step t s = Some (goto t (Done None) s)"
    if "state s = p \<and> pcs s t = Upd_test \<and> stopUpdateFlag p" for s :: system and t
    using that by (simp add: step_def)
  have exit: "pcs s' t = Done None"
    if "state s = p \<and> stopUpdateFlag p \<and> in_updateLoop (pcs s t) \<and>
                exec sch s = Some s' \<and> 3 \<le> count_list sch t" for s t sch s'
  proof -
    from that have "steps_to_exit (pcs s t) \<le> count_list sch t"
      by (cases "pcs s t") auto
    with that show ?thesis by (intro updater_exits [of sch s s' t]) simp_all
  qed
  show ?thesis
  proof (intro conjI allI impI)
    show "update_all Object (activeObjects p) p =
            Returned () (p\<lparr>calls := calls p @ map Update (activeObjects p)\<rparr>)"
      by (rule update_all_Object)
    show "updateLoop c p = Some (Returned () p)" if "stopUpdateFlag p"
      using that by (rule updateLoop_stopped)
    show "updateLoop Object p = None" if "\<not> stopUpdateFlag p"
      using that by (rule updateLoop_running)
    show "updateLoop (throws_on (Update x)) p =
        Some (Raised (Update x)
          (p\<lparr>calls := calls p @ map Update (takeWhile (\<lambda>y. y \<noteq> x) (activeObjects p)) @
                        [Update x]\<rparr>))"
      if "\<not> stopUpdateFlag p \<and> x \<in> set (activeObjects p)"
      using that by (intro updateLoop_throws) simp_all
  qed (fact free iter test exit)+
qed

theorem update_pass_witness:
  "run [Acquire, Acquire] (ObjectPool_2 3 False) =
     Some ([Acquired 0, Acquired 1],
       \<lparr>expandable = False, objects = [2], activeObjects = [0, 1], updateThread = Running,
        stopUpdateFlag = False, heap = 3,
        calls = [New 0, New 1, New 2, Activate 0, Activate 1]\<rparr>) \<and>
   releases_active [Acquire, Acquire] (ObjectPool_2 3 False) \<and>
   update_all Object [0, 1]
       \<lparr>expandable = False, objects = [2], activeObjects = [0, 1], updateThread = Running,
        stopUpdateFlag = False, heap = 3,
        calls = [New 0, New 1, New 2, Activate 0, Activate 1]\<rparr> =
     Returned ()
       \<lparr>expandable = False, objects = [2], activeObjects = [0, 1], updateThread = Running,
        stopUpdateFlag = False, heap = 3,
        calls = [New 0, New 1, New 2, Activate 0, Activate 1, Update 0, Update 1]\<rparr> \<and>
   Update 2 \<notin> set [Update 0, Update 1] \<and>
   updateLoop Object
       \<lparr>expandable = False, objects = [2], activeObjects = [0, 1], updateThread = Running,
        stopUpdateFlag = False, heap = 3,
        calls = [New 0, New 1, New 2, Activate 0, Activate 1]\<rparr> = None \<and>
   updateLoop (throws_on (Update 1))
       \<lparr>expandable = False, objects = [2], activeObjects = [0, 1], updateThread = Running,
        stopUpdateFlag = False, heap = 3,
        calls = [New 0, New 1, New 2, Activate 0, Activate 1]\<rparr> =
     Some (Raised (Update 1)
       \<lparr>expandable = False, objects = [2], activeObjects = [0, 1], updateThread = Running,
        stopUpdateFlag = False, heap = 3,
        calls = [New 0, New 1, New 2, Activate 0, Activate 1, Update 0, Update 1]\<rparr>) \<and>
   updateLoop Object
       \<lparr>expandable = False, objects = [2], activeObjects = [0, 1], updateThread = Running,
        stopUpdateFlag = True, heap = 3,
        calls = [New 0, New 1, New 2, Activate 0, Activate 1]\<rparr> =
     Some (Returned ()
       \<lparr>expandable = False, objects = [2], activeObjects = [0, 1], updateThread = Running,
        stopUpdateFlag = True, heap = 3,
        calls = [New 0, New 1, New 2, Activate 0, Activate 1]\<rparr>) \<and>
   map_option (view [0])
     (exec [0, 0, 0]
        \<lparr>state = \<lparr>expandable = False, objects = [2], activeObjects = [0, 1],
                   updateThread = Running, stopUpdateFlag = False, heap = 3,
                   calls = [New 0, New 1, New 2, Activate 0, Activate 1]\<rparr>,
         mutex = None, waiting = 0, pcs = idle(0 := Upd_test)\<rparr>) =
     Some (\<lparr>expandable = False, objects = [2], activeObjects = [0, 1], updateThread = Running,
            stopUpdateFlag = False, heap = 3,
            calls = [New 0, New 1, New 2, Activate 0, Activate 1, Update 0, Update 1]\<rparr>,
           None, [Upd_test]) \<and>
   map_option (view [0])
     (exec [0, 0, 0]
        \<lparr>state = \<lparr>expandable = False, objects = [2], activeObjects = [0, 1],
                   updateThread = Running, stopUpdateFlag = True, heap = 3,
                   calls = [New 0, New 1, New 2, Activate 0, Activate 1]\<rparr>,
         mutex = None, waiting = 0, pcs = idle(0 := Upd_lock)\<rparr>) =
     Some (\<lparr>expandable = False, objects = [2], activeObjects = [0, 1], updateThread = Running,
            stopUpdateFlag = True, heap = 3,
            calls = [New 0, New 1, New 2, Activate 0, Activate 1, Update 0, Update 1]\<rparr>,
           None, [Done None])"
  using update_pass [of
      "\<lparr>expandable = False, objects = [2], activeObjects = [0, 1], updateThread = Running,
        stopUpdateFlag = False, heap = 3,
        calls = [New 0, New 1, New 2, Activate 0, Activate 1]\<rparr>"
      "[Acquire, Acquire]" 3 False "[Acquired 0, Acquired 1]" Object 1]
    update_pass [of
      "\<lparr>expandable = False, objects = [2], activeObjects = [0, 1], updateThread = Running,
        stopUpdateFlag = True, heap = 3,
        calls = [New 0, New 1, New 2, Activate 0, Activate 1]\<rparr>"
      "[]" 0 False "[]" Object 0]
  by (simp add: ObjectPool_2_eq pool_step_Acquire upt_conv_Cons Let_def step_defs view_def
        idle_def update_all_Object)

section \<open>What \<^verbatim>\<open>requestObject\<close> does outside the mutex\<close>

text \<open>
  Claim C3 does not hold of the code. The \<^verbatim>\<open>unique_lock\<close> of \<^verbatim>\<open>requestObject\<close> lives in
  the block of \<^verbatim>\<open>if (!expandable)\<close>, and the \<^verbatim>\<open>else\<close> branch takes no lock: lines 90 to
  97 (creation, \<^verbatim>\<open>front\<close>, \<^verbatim>\<open>pop\<close>, \<^verbatim>\<open>push_back\<close>) run without the mutex, while
  \<^verbatim>\<open>releaseObject\<close> and \<^verbatim>\<open>updateLoop\<close> hold it for all they do. Three schedules:
  two threads request from a pool of two, both read the front before either pops, and
  both are handed object 0 while object 1 is in neither collection; on a pool of one
  that cannot grow, a thread pops and pushes while the update thread owns the mutex in
  the middle of its pass; on an empty expandable pool, a thread creates, pops and
  pushes while the update thread owns the mutex. (In general: \<open>request_without_mutex\<close>.)
\<close>

theorem request_outside_mutex:
  "map_option (view [0, 1, 2])
     (exec [1, 1, 2, 2, 1, 2, 1, 2, 1, 2, 1, 2]
        (start (ObjectPool_2 2 False) (idle(1 := Req_enter, 2 := Req_enter)))) =
     Some (\<lparr>expandable = False, objects = [], activeObjects = [0, 0], updateThread = Running,
            stopUpdateFlag = False, heap = 2,
            calls = [New 0, New 1, Activate 0, Activate 0]\<rparr>,
           None, [Upd_test, Done (Some 0), Done (Some 0)]) \<and>
   map_option (view [0, 1])
     (exec [1, 1, 0, 0] (start (ObjectPool_2 1 False) (idle(1 := Req_enter)))) =
     Some (\<lparr>expandable = False, objects = [0], activeObjects = [], updateThread = Running,
            stopUpdateFlag = False, heap = 1, calls = [New 0]\<rparr>,
           Some 0, [Upd_pass, Req_front]) \<and>
   map_option (view [0, 1])
     (exec [1, 1, 0, 0, 1, 1, 1, 1] (start (ObjectPool_2 1 False) (idle(1 := Req_enter)))) =
     Some (\<lparr>expandable = False, objects = [], activeObjects = [0], updateThread = Running,
            stopUpdateFlag = False, heap = 1, calls = [New 0, Activate 0]\<rparr>,
           Some 0, [Upd_pass, Done (Some 0)]) \<and>
   map_option (view [0, 1])
     (exec [0, 0] (start (ObjectPool_2 0 True) (idle(1 := Req_enter)))) =
     Some (\<lparr>expandable = True, objects = [], activeObjects = [], updateThread = Running,
            stopUpdateFlag = False, heap = 0, calls = []\<rparr>,
           Some 0, [Upd_pass, Req_enter]) \<and>
   map_option (view [0, 1])
     (exec [0, 0, 1, 1, 1, 1, 1, 1] (start (ObjectPool_2 0 True) (idle(1 := Req_enter)))) =
     Some (\<lparr>expandable = True, objects = [], activeObjects = [0], updateThread = Running,
            stopUpdateFlag = False, heap = 1, calls = [New 0, Activate 0]\<rparr>,
           Some 0, [Upd_pass, Done (Some 0)])"
  by (simp add: run_defs)

section \<open>A waiting request and the destructor\<close>

text \<open>
  Claim C9 does not hold of the code. The destructor sets \<^verbatim>\<open>stopUpdateFlag\<close> and calls
  \<^verbatim>\<open>releaseMonitor.notify_all()\<close>, but the loop of a waiting \<^verbatim>\<open>requestObject\<close> tests
  \<^verbatim>\<open>objects.empty()\<close> only, and \<^verbatim>\<open>requestObject\<close> has no result that stands for a
  shutdown. Thread 1 holds the only object, thread 2 waits, thread 3 runs the
  destructor. Woken after the \<^verbatim>\<open>notify_all\<close>, thread 2 finds the queue empty and waits
  again. It still waits when the destructor has released and deleted the object and is
  past line 76; the members are then destroyed under it. In another schedule thread 2
  wakes after the \<^verbatim>\<open>releaseObject\<close> of line 71 and is handed object 0, which the
  destructor deletes in between. (On a pool with no object at all the waiting thread
  never returns, whatever the schedule: \<open>waiter_never_returns\<close>.)
\<close>

theorem waiter_not_woken_by_teardown:
  "map_option (view [0, 1, 2, 3])
     (exec [1, 1, 1, 1, 1, 1, 2, 2, 3, 3, 2, 2]
        (start (ObjectPool_2 1 False) (idle(1 := Req_enter, 2 := Req_enter, 3 := Dtor_stop)))) =
     Some (\<lparr>expandable = False, objects = [], activeObjects = [0], updateThread = Running,
            stopUpdateFlag = True, heap = 1, calls = [New 0, Activate 0, Notify_all]\<rparr>,
           None, [Upd_test, Done (Some 0), Req_wait, Dtor_join]) \<and>
   map_option (view [0, 1, 2, 3])
     (exec [1, 1, 1, 1, 1, 1, 2, 2, 3, 3, 2, 2, 0, 3, 3, 3, 3, 3, 3, 3, 3, 3, 3, 3, 3, 3, 2, 2]
        (start (ObjectPool_2 1 False) (idle(1 := Req_enter, 2 := Req_enter, 3 := Dtor_stop)))) =
     Some (\<lparr>expandable = False, objects = [], activeObjects = [], updateThread = Joined,
            stopUpdateFlag = True, heap = 1,
            calls = [New 0, Activate 0, Notify_all, Join, Deactivate 0, Notify_one, Delete 0]\<rparr>,
           None, [Done None, Done (Some 0), Req_wait, Dtor_members]) \<and>
   map_option (view [0, 1, 2, 3])
     (exec [1, 1, 1, 1, 1, 1, 2, 2, 3, 3, 2, 2, 0, 3, 3, 3, 3, 3, 3, 3, 3, 3, 3, 3, 3, 3, 2, 2, 3]
        (start (ObjectPool_2 1 False) (idle(1 := Req_enter, 2 := Req_enter, 3 := Dtor_stop)))) =
     Some (\<lparr>expandable = False, objects = [], activeObjects = [], updateThread = Joined,
            stopUpdateFlag = True, heap = 1,
            calls = [New 0, Activate 0, Notify_all, Join, Deactivate 0, Notify_one, Delete 0]\<rparr>,
           None, [Done None, Done (Some 0), Req_wait, Crashed]) \<and>
   map_option (view [0, 1, 2, 3])
     (exec [1, 1, 1, 1, 1, 1, 2, 2, 3, 3, 2, 2, 0, 3, 3, 3, 3, 3, 3, 3, 3, 2, 2, 2, 3, 3, 3,
            2, 2, 2, 3]
        (start (ObjectPool_2 1 False) (idle(1 := Req_enter, 2 := Req_enter, 3 := Dtor_stop)))) =
     Some (\<lparr>expandable = False, objects = [], activeObjects = [0], updateThread = Joined,
            stopUpdateFlag = True, heap = 1,
            calls = [New 0, Activate 0, Notify_all, Join, Deactivate 0, Notify_one, Delete 0,
                     Activate 0]\<rparr>,
           None, [Done None, Done (Some 0), Done (Some 0), Crashed])"
  by (simp add: run_defs)

end
